theory Spec2Isabelle
  imports Complex_Main
begin

section \<open>Arrays\<close>

text \<open>
  The program keeps its tables in two-dimensional numpy arrays. An array is modelled as
  the list of its rows. Float cells are idealised as real numbers (no rounding, no NaN,
  no infinity); the integer cells of the parent table are \<open>int\<close>.
\<close>

type_synonym 'a ndarray = "'a list list"

datatype error = IndexError

definition zeros :: "nat \<Rightarrow> nat \<Rightarrow> ('a::zero) ndarray" where
  "zeros r c = replicate r (replicate c 0)"

text \<open>\<open>A[i, j] = v\<close> for an index inside the array.\<close>

definition setitem :: "'a ndarray \<Rightarrow> nat \<Rightarrow> nat \<Rightarrow> 'a \<Rightarrow> 'a ndarray" where
  "setitem A i j v = A[i := (A ! i)[j := v]]"

text \<open>
  \<open>A[i, j]\<close> read with numpy's bounds check, for a non-negative index: outside the
  array the read raises IndexError.
\<close>

definition getitem :: "'a ndarray \<Rightarrow> nat \<Rightarrow> nat \<Rightarrow> error + 'a" where
  "getitem A i j =
     (if i < length A \<and> j < length (A ! i) then Inr (A ! i ! j) else Inl IndexError)"

text \<open>\<open>s[i]\<close> on a sequence, for a non-negative index.\<close>

definition seq_item :: "'a list \<Rightarrow> nat \<Rightarrow> error + 'a" where
  "seq_item s i = (if i < length s then Inr (s ! i) else Inl IndexError)"

text \<open>\<open>np.cumsum\<close>: the running sums, accumulated from the left.\<close>

fun cumsum_from :: "real \<Rightarrow> real list \<Rightarrow> real list" where
  "cumsum_from acc [] = []"
| "cumsum_from acc (v # vs) = (acc + v) # cumsum_from (acc + v) vs"

definition cumsum :: "real list \<Rightarrow> real list" where
  "cumsum vs = cumsum_from 0 vs"

text \<open>
  \<open>np.argmin\<close>: the index of the first occurrence of the least element. The program
  calls it on a list of three candidates only; numpy rejects the empty list, which the
  model maps to 0.
\<close>

fun argmin :: "real list \<Rightarrow> nat" where
  "argmin [] = 0"
| "argmin [a] = 0"
| "argmin (a # b # bs) = (let k = argmin (b # bs) in if a \<le> (b # bs) ! k then 0 else Suc k)"

text \<open>
  The slice assignments of \<open>dynprog\<close>: \<open>A[1:, 0] = vs\<close> and \<open>A[0, 1:] = vs\<close> with
  an array of values, \<open>A[1:, 0] = c\<close> and \<open>A[0, 1:] = c\<close> with a scalar.
\<close>

definition set_col0_tail :: "'a ndarray \<Rightarrow> 'a list \<Rightarrow> 'a ndarray" where
  "set_col0_tail A vs =
     (case A of [] \<Rightarrow> [] | r # rs \<Rightarrow> r # map (\<lambda>(row, v). row[0 := v]) (zip rs vs))"

definition set_row0_tail :: "'a ndarray \<Rightarrow> 'a list \<Rightarrow> 'a ndarray" where
  "set_row0_tail A vs = (case A of [] \<Rightarrow> [] | r # rs \<Rightarrow> (take 1 r @ vs) # rs)"

definition fill_col0_tail :: "'a ndarray \<Rightarrow> 'a \<Rightarrow> 'a ndarray" where
  "fill_col0_tail A c = (case A of [] \<Rightarrow> [] | r # rs \<Rightarrow> r # map (\<lambda>row. row[0 := c]) rs)"

definition fill_row0_tail :: "'a ndarray \<Rightarrow> 'a \<Rightarrow> 'a ndarray" where
  "fill_row0_tail A c =
     (case A of [] \<Rightarrow> [] | r # rs \<Rightarrow> (take 1 r @ replicate (length r - 1) c) # rs)"

section \<open>Cost model\<close>

text \<open>The default arguments of \<open>lev\<close> and \<open>dynprog\<close>, and the edit operation codes.\<close>

definition default_insert_cost :: "'a \<Rightarrow> real" where
  "default_insert_cost c = 1"

definition default_delete_cost :: "'a \<Rightarrow> real" where
  "default_delete_cost c = 2"

definition default_match_cost :: "'a \<Rightarrow> 'a \<Rightarrow> real" where
  "default_match_cost cx cy = (if cx = cy then 0 else 4)"

definition op_insert :: int where "op_insert = 1"
definition op_delete :: int where "op_delete = 2"

section \<open>The dynamic program\<close>

text \<open>
  One pass of the inner loop body of \<open>dynprog\<close> at cell \<open>(ix, iy)\<close>: the three
  candidates in the order match, insert, delete, the first least one recorded in \<open>P\<close>
  and its value in \<open>M\<close>.
\<close>

definition dynprog_cell ::
  "'a list \<Rightarrow> 'a list \<Rightarrow> ('a \<Rightarrow> real) \<Rightarrow> ('a \<Rightarrow> real) \<Rightarrow> ('a \<Rightarrow> 'a \<Rightarrow> real) \<Rightarrow>
   nat \<Rightarrow> nat \<Rightarrow> real ndarray \<times> int ndarray \<Rightarrow> real ndarray \<times> int ndarray" where
  "dynprog_cell x y insert_cost delete_cost match_cost ix iy MP =
     (let M = fst MP; P = snd MP;
          L = [M ! (ix - 1) ! (iy - 1) + match_cost (x ! (ix - 1)) (y ! (iy - 1)),
               M ! ix ! (iy - 1) + insert_cost (y ! (iy - 1)),
               M ! (ix - 1) ! iy + delete_cost (x ! (ix - 1))];
          i_min = argmin L;
          P = setitem P ix iy (int i_min);
          M = setitem M ix iy (L ! i_min)
      in (M, P))"

definition dynprog ::
  "'a list \<Rightarrow> 'a list \<Rightarrow> ('a \<Rightarrow> real) \<Rightarrow> ('a \<Rightarrow> real) \<Rightarrow> ('a \<Rightarrow> 'a \<Rightarrow> real) \<Rightarrow>
   real ndarray \<times> int ndarray" where
  "dynprog x y insert_cost delete_cost match_cost =
     (let nx = length x; ny = length y;
          M = zeros (nx + 1) (ny + 1);
          P = zeros (nx + 1) (ny + 1);
          M = set_col0_tail M (cumsum (map delete_cost x));
          P = fill_col0_tail P op_delete;
          M = set_row0_tail M (cumsum (map insert_cost y));
          P = fill_row0_tail P op_insert
      in fold (\<lambda>ix. fold (dynprog_cell x y insert_cost delete_cost match_cost ix)
                 [1..<ny + 1])
           [1..<nx + 1] (M, P))"

section \<open>Backtracking\<close>

text \<open>
  \<open>explain_dynprog\<close> appends one formatted string per step: \<open>' match a and b '\<close>,
  \<open>'insert b'\<close> or \<open>'delete a'\<close>. The model keeps each string as its operation and the
  elements it was formatted from.
\<close>

datatype 'a edit_op = Match 'a 'a | Insert 'a | Delete 'a

text \<open>
  The first loop, \<open>while ix > 0 and iy > 0\<close>. It returns the position where it stops
  and the list built so far. The array \<open>M\<close> is a parameter of \<open>explain_dynprog\<close> that
  the loops never read.
\<close>

fun walk_loop ::
  "'a list \<Rightarrow> 'a list \<Rightarrow> int ndarray \<Rightarrow> nat \<Rightarrow> nat \<Rightarrow> 'a edit_op list \<Rightarrow>
   error + (nat \<times> nat \<times> 'a edit_op list)" where
  "walk_loop x y P ix iy L =
     (if ix > 0 \<and> iy > 0 then
        (case getitem P ix iy of
           Inl e \<Rightarrow> Inl e
         | Inr p \<Rightarrow>
             if p = 0 then
               (case seq_item x (ix - 1) of
                  Inl e \<Rightarrow> Inl e
                | Inr a \<Rightarrow>
                    (case seq_item y (iy - 1) of
                       Inl e \<Rightarrow> Inl e
                     | Inr b \<Rightarrow> walk_loop x y P (ix - 1) (iy - 1) (L @ [Match a b])))
             else if p = 1 then
               (case seq_item y (iy - 1) of
                  Inl e \<Rightarrow> Inl e
                | Inr b \<Rightarrow> walk_loop x y P ix (iy - 1) (L @ [Insert b]))
             else
               (case seq_item x (ix - 1) of
                  Inl e \<Rightarrow> Inl e
                | Inr a \<Rightarrow> walk_loop x y P (ix - 1) iy (L @ [Delete a])))
      else Inr (ix, iy, L))"

text \<open>The two draining loops, \<open>while ix > 0\<close> and \<open>while iy > 0\<close>.\<close>

fun delete_loop :: "'a list \<Rightarrow> nat \<Rightarrow> 'a edit_op list \<Rightarrow> error + 'a edit_op list" where
  "delete_loop x ix L =
     (if ix > 0 then
        (case seq_item x (ix - 1) of
           Inl e \<Rightarrow> Inl e
         | Inr a \<Rightarrow> delete_loop x (ix - 1) (L @ [Delete a]))
      else Inr L)"

fun insert_loop :: "'a list \<Rightarrow> nat \<Rightarrow> 'a edit_op list \<Rightarrow> error + 'a edit_op list" where
  "insert_loop y iy L =
     (if iy > 0 then
        (case seq_item y (iy - 1) of
           Inl e \<Rightarrow> Inl e
         | Inr b \<Rightarrow> insert_loop y (iy - 1) (L @ [Insert b]))
      else Inr L)"

definition explain_dynprog ::
  "'a list \<Rightarrow> 'a list \<Rightarrow> real ndarray \<Rightarrow> int ndarray \<Rightarrow> error + 'a edit_op list" where
  "explain_dynprog x y M P =
     (let nx = length x; ny = length y in
      case walk_loop x y P nx ny [] of
        Inl e \<Rightarrow> Inl e
      | Inr (ix, iy, L) \<Rightarrow>
          (case delete_loop x ix L of
             Inl e \<Rightarrow> Inl e
           | Inr L \<Rightarrow>
               (case insert_loop y iy L of
                  Inl e \<Rightarrow> Inl e
                | Inr L \<Rightarrow> Inr (rev L))))"

section \<open>The recursive function\<close>

text \<open>
  \<open>lev\<close> tests \<open>if a:\<close> and \<open>if b:\<close>, which hold for a non-empty sequence, and its
  recursive calls pass no cost function, so they run with the defaults. The recursion
  need not end: the function is partial, and \<open>None\<close> stands for a call that never
  returns a value (Python stops it with RecursionError).
\<close>

partial_function (option) lev ::
  "'a list \<Rightarrow> 'a list \<Rightarrow> ('a \<Rightarrow> real) \<Rightarrow> ('a \<Rightarrow> real) \<Rightarrow> ('a \<Rightarrow> 'a \<Rightarrow> real) \<Rightarrow>
   (error + real) option" where
  "lev a b insert_cost delete_cost match_cost =
     (if a \<noteq> [] then Some (Inr (sum_list (map insert_cost b)))
      else if b \<noteq> [] then Some (Inr (sum_list (map delete_cost a)))
      else
        Option.bind
          (lev (butlast a) (butlast b)
             default_insert_cost default_delete_cost default_match_cost)
          (\<lambda>r1. case r1 of
             Inl e \<Rightarrow> Some (Inl e)
           | Inr v1 \<Rightarrow>
               if a = [] \<or> b = [] then Some (Inl IndexError)
               else
                 Option.bind
                   (lev a (butlast b)
                      default_insert_cost default_delete_cost default_match_cost)
                   (\<lambda>r2. case r2 of
                      Inl e \<Rightarrow> Some (Inl e)
                    | Inr v2 \<Rightarrow>
                        Option.bind
                          (lev (butlast a) b
                             default_insert_cost default_delete_cost default_match_cost)
                          (\<lambda>r3. case r3 of
                             Inl e \<Rightarrow> Some (Inl e)
                           | Inr v3 \<Rightarrow>
                               Some (Inr (min (v1 + match_cost (last a) (last b))
                                            (min (v2 + insert_cost (last b))
                                               (v3 + delete_cost (last a)))))))))"

section \<open>The unit-cost function\<close>

text \<open>
  \<open>levenshtein\<close> fills its own table: the borders by two loops over the indices, the
  inner cells by the least of three candidates, taken in the order delete, match,
  insert. The call to \<open>print\<close> has no effect on the value returned.
\<close>

definition levenshtein_cell :: "'a list \<Rightarrow> 'a list \<Rightarrow> nat \<Rightarrow> nat \<Rightarrow> real ndarray \<Rightarrow> real ndarray" where
  "levenshtein_cell seq1 seq2 x y matrix =
     (if seq1 ! (x - 1) = seq2 ! (y - 1) then
        setitem matrix x y
          (min (matrix ! (x - 1) ! y + 1)
             (min (matrix ! (x - 1) ! (y - 1)) (matrix ! x ! (y - 1) + 1)))
      else
        setitem matrix x y
          (min (matrix ! (x - 1) ! y + 1)
             (min (matrix ! (x - 1) ! (y - 1) + 1) (matrix ! x ! (y - 1) + 1))))"

definition levenshtein :: "'a list \<Rightarrow> 'a list \<Rightarrow> real" where
  "levenshtein seq1 seq2 =
     (let size_x = length seq1 + 1; size_y = length seq2 + 1;
          matrix = zeros size_x size_y;
          matrix = fold (\<lambda>x matrix. setitem matrix x 0 (real x)) [0..<size_x] matrix;
          matrix = fold (\<lambda>y matrix. setitem matrix 0 y (real y)) [0..<size_y] matrix;
          matrix = fold (\<lambda>x. fold (levenshtein_cell seq1 seq2 x) [1..<size_y])
                     [1..<size_x] matrix
      in matrix ! (size_x - 1) ! (size_y - 1))"

section \<open>Replaying an edit script\<close>

text \<open>
  The cost of a script under a cost model: \<open>match_cost\<close> for each match,
  \<open>insert_cost\<close> for each insert, \<open>delete_cost\<close> for each delete, summed.
\<close>

fun op_cost :: "('a \<Rightarrow> real) \<Rightarrow> ('a \<Rightarrow> real) \<Rightarrow> ('a \<Rightarrow> 'a \<Rightarrow> real) \<Rightarrow> 'a edit_op \<Rightarrow> real" where
  "op_cost insert_cost delete_cost match_cost (Match a b) = match_cost a b"
| "op_cost insert_cost delete_cost match_cost (Insert b) = insert_cost b"
| "op_cost insert_cost delete_cost match_cost (Delete a) = delete_cost a"

definition script_cost ::
  "('a \<Rightarrow> real) \<Rightarrow> ('a \<Rightarrow> real) \<Rightarrow> ('a \<Rightarrow> 'a \<Rightarrow> real) \<Rightarrow> 'a edit_op list \<Rightarrow> real" where
  "script_cost insert_cost delete_cost match_cost ops =
     sum_list (map (op_cost insert_cost delete_cost match_cost) ops)"

text \<open>
  Applying a script to a source sequence, left to right. A match and a delete consume
  the next source element, which has to be the one the operation names; an insert
  consumes nothing. The result is \<open>None\<close> when an operation finds no such source element
  or when source elements are left over at the end.

  \<open>replay_copy\<close> copies the source element on a match; \<open>replay\<close> writes the target
  element that the match pairs it with.
\<close>

fun replay_copy :: "'a edit_op list \<Rightarrow> 'a list \<Rightarrow> 'a list option" where
  "replay_copy [] src = (if src = [] then Some [] else None)"
| "replay_copy (Match a b # ops) src =
     (case src of
        [] \<Rightarrow> None
      | s # rest \<Rightarrow> if s = a then map_option ((#) s) (replay_copy ops rest) else None)"
| "replay_copy (Insert b # ops) src = map_option ((#) b) (replay_copy ops src)"
| "replay_copy (Delete a # ops) src =
     (case src of
        [] \<Rightarrow> None
      | s # rest \<Rightarrow> if s = a then replay_copy ops rest else None)"

fun replay :: "'a edit_op list \<Rightarrow> 'a list \<Rightarrow> 'a list option" where
  "replay [] src = (if src = [] then Some [] else None)"
| "replay (Match a b # ops) src =
     (case src of
        [] \<Rightarrow> None
      | s # rest \<Rightarrow> if s = a then map_option ((#) b) (replay ops rest) else None)"
| "replay (Insert b # ops) src = map_option ((#) b) (replay ops src)"
| "replay (Delete a # ops) src =
     (case src of
        [] \<Rightarrow> None
      | s # rest \<Rightarrow> if s = a then replay ops rest else None)"

text \<open>Whether every match of a script pairs two equal elements.\<close>

fun only_equal_matches :: "'a edit_op list \<Rightarrow> bool" where
  "only_equal_matches [] = True"
| "only_equal_matches (Match a b # ops) = (a = b \<and> only_equal_matches ops)"
| "only_equal_matches (Insert b # ops) = only_equal_matches ops"
| "only_equal_matches (Delete a # ops) = only_equal_matches ops"

section \<open>Reference recurrence\<close>

text \<open>
  The table the loops are meant to build, as a function of the cell: the recurrence on
  prefixes for the costs, and the position of the first least candidate for the parent
  codes. The proofs below show that the loops of \<open>dynprog\<close> and of \<open>levenshtein\<close>
  compute exactly these values; no theorem about the program is stated through them.
\<close>

fun dist_rec ::
  "'a list \<Rightarrow> 'a list \<Rightarrow> ('a \<Rightarrow> real) \<Rightarrow> ('a \<Rightarrow> real) \<Rightarrow> ('a \<Rightarrow> 'a \<Rightarrow> real) \<Rightarrow>
   nat \<Rightarrow> nat \<Rightarrow> real" where
  "dist_rec x y ic dc mc 0 0 = 0"
| "dist_rec x y ic dc mc (Suc i) 0 = dist_rec x y ic dc mc i 0 + dc (x ! i)"
| "dist_rec x y ic dc mc 0 (Suc j) = dist_rec x y ic dc mc 0 j + ic (y ! j)"
| "dist_rec x y ic dc mc (Suc i) (Suc j) =
     min (dist_rec x y ic dc mc i j + mc (x ! i) (y ! j))
       (min (dist_rec x y ic dc mc (Suc i) j + ic (y ! j))
          (dist_rec x y ic dc mc i (Suc j) + dc (x ! i)))"

definition op_rec ::
  "'a list \<Rightarrow> 'a list \<Rightarrow> ('a \<Rightarrow> real) \<Rightarrow> ('a \<Rightarrow> real) \<Rightarrow> ('a \<Rightarrow> 'a \<Rightarrow> real) \<Rightarrow>
   nat \<Rightarrow> nat \<Rightarrow> int" where
  "op_rec x y ic dc mc i j =
     (if i = 0 then (if j = 0 then 0 else 1)
      else if j = 0 then 2
      else int (argmin
        [dist_rec x y ic dc mc (i - 1) (j - 1) + mc (x ! (i - 1)) (y ! (j - 1)),
         dist_rec x y ic dc mc i (j - 1) + ic (y ! (j - 1)),
         dist_rec x y ic dc mc (i - 1) j + dc (x ! (i - 1))]))"

text \<open>
  The loop invariant of a table fill in row-major order: the array has \<open>nx + 1\<close> rows of
  \<open>ny + 1\<close> cells, and the borders and every inner cell before \<open>(ix, iy)\<close> hold the
  value \<open>f\<close> gives.
\<close>

definition filled_upto ::
  "nat \<Rightarrow> nat \<Rightarrow> (nat \<Rightarrow> nat \<Rightarrow> 'a) \<Rightarrow> nat \<Rightarrow> nat \<Rightarrow> 'a ndarray \<Rightarrow> bool" where
  "filled_upto nx ny f ix iy A \<longleftrightarrow>
     length A = nx + 1 \<and> (\<forall>i \<le> nx. length (A ! i) = ny + 1) \<and>
     (\<forall>i \<le> nx. \<forall>j \<le> ny.
        (i = 0 \<or> j = 0 \<or> i < ix \<or> (i = ix \<and> j < iy)) \<longrightarrow> A ! i ! j = f i j)"

text \<open>The invariant of the two tables of \<open>dynprog\<close> together.\<close>

definition dynprog_inv ::
  "'a list \<Rightarrow> 'a list \<Rightarrow> ('a \<Rightarrow> real) \<Rightarrow> ('a \<Rightarrow> real) \<Rightarrow> ('a \<Rightarrow> 'a \<Rightarrow> real) \<Rightarrow> nat \<Rightarrow> nat \<Rightarrow>
   real ndarray \<times> int ndarray \<Rightarrow> bool" where
  "dynprog_inv x y ic dc mc ix iy MP \<longleftrightarrow>
     filled_upto (length x) (length y) (dist_rec x y ic dc mc) ix iy (fst MP) \<and>
     filled_upto (length x) (length y) (op_rec x y ic dc mc) ix iy (snd MP)"

section \<open>Properties of the tables\<close>

subsection \<open>Arrays and loops\<close>

lemma argmin3_index:
  "argmin [a, b, c] = (if a \<le> b \<and> a \<le> c then 0 else if b \<le> c then 1 else 2)"
  by (auto simp: Let_def)

lemma argmin3_value: "[a, b, c] ! argmin [a, b, c] = min a (min b c)"
  by (auto simp: argmin3_index min_def)

lemma fold_upt_invariant:
  assumes "a \<le> b" and "I a s"
    and "\<And>k t. a \<le> k \<Longrightarrow> k < b \<Longrightarrow> I k t \<Longrightarrow> I (Suc k) (f k t)"
  shows "I b (fold f [a..<b] s)"
  using assms
proof (induction b)
  case 0
  then show ?case by simp
next
  case (Suc b)
  show ?case
  proof (cases "a = Suc b")
    case True
    with Suc.prems(2) show ?thesis by simp
  next
    case False
    with Suc.prems(1) have le: "a \<le> b" by simp
    have "I b (fold f [a..<b] s)"
      using Suc.IH [OF le Suc.prems(2)] Suc.prems(3) by simp
    then have "I (Suc b) (f b (fold f [a..<b] s))"
      using Suc.prems(3) [of b] le by simp
    with le show ?thesis by simp
  qed
qed

lemma setitem_length [simp]: "length (setitem A i j v) = length A"
  by (simp add: setitem_def)

lemma setitem_row_length [simp]: "length (setitem A i j v ! k) = length (A ! k)"
  by (cases "i < length A"; cases "k = i")
    (simp_all add: setitem_def not_less list_update_beyond)

lemma setitem_nth:
  "i < length A \<Longrightarrow> j < length (A ! i) \<Longrightarrow>
   setitem A i j v ! i' ! j' = (if i' = i \<and> j' = j then v else A ! i' ! j')"
  by (simp add: setitem_def nth_list_update)

lemma filled_uptoD:
  assumes "filled_upto nx ny f ix iy A"
  shows "length A = nx + 1"
    and "i \<le> nx \<Longrightarrow> length (A ! i) = ny + 1"
    and "i \<le> nx \<Longrightarrow> j \<le> ny \<Longrightarrow> i = 0 \<or> j = 0 \<or> i < ix \<or> (i = ix \<and> j < iy) \<Longrightarrow>
         A ! i ! j = f i j"
  using assms unfolding filled_upto_def by blast+

lemma filled_uptoI:
  assumes "length A = nx + 1"
    and "\<And>i. i \<le> nx \<Longrightarrow> length (A ! i) = ny + 1"
    and "\<And>i j. i \<le> nx \<Longrightarrow> j \<le> ny \<Longrightarrow> i = 0 \<or> j = 0 \<or> i < ix \<or> (i = ix \<and> j < iy) \<Longrightarrow>
         A ! i ! j = f i j"
  shows "filled_upto nx ny f ix iy A"
  using assms unfolding filled_upto_def by blast

lemma filled_upto_setitem:
  assumes ix: "1 \<le> ix" "ix \<le> nx" and iy: "1 \<le> iy" "iy \<le> ny"
    and inv: "filled_upto nx ny f ix iy A"
    and v: "v = f ix iy"
  shows "filled_upto nx ny f ix (Suc iy) (setitem A ix iy v)"
proof (rule filled_uptoI)
  show "length (setitem A ix iy v) = nx + 1"
    using filled_uptoD(1) [OF inv] by simp
  show "length (setitem A ix iy v ! i) = ny + 1" if "i \<le> nx" for i
    using filled_uptoD(2) [OF inv that] by simp
  have inA: "ix < length A" "iy < length (A ! ix)"
    using filled_uptoD(1) [OF inv] filled_uptoD(2) [OF inv ix(2)] ix iy by simp_all
  show "setitem A ix iy v ! i ! j = f i j"
    if i: "i \<le> nx" and j: "j \<le> ny"
      and c: "i = 0 \<or> j = 0 \<or> i < ix \<or> (i = ix \<and> j < Suc iy)" for i j
  proof (cases "i = ix \<and> j = iy")
    case True
    with inA v show ?thesis by (simp add: setitem_nth)
  next
    case False
    with c have "i = 0 \<or> j = 0 \<or> i < ix \<or> (i = ix \<and> j < iy)" by auto
    from filled_uptoD(3) [OF inv i j this] have "A ! i ! j = f i j" .
    moreover have "setitem A ix iy v ! i ! j = A ! i ! j"
      using False inA by (auto simp: setitem_nth)
    ultimately show ?thesis by simp
  qed
qed

lemma filled_upto_next_row:
  assumes "filled_upto nx ny f ix (ny + 1) A"
  shows "filled_upto nx ny f (Suc ix) 1 A"
proof (rule filled_uptoI)
  show "length A = nx + 1" by (rule filled_uptoD(1) [OF assms])
  show "length (A ! i) = ny + 1" if "i \<le> nx" for i by (rule filled_uptoD(2) [OF assms that])
  show "A ! i ! j = f i j"
    if i: "i \<le> nx" and j: "j \<le> ny"
      and c: "i = 0 \<or> j = 0 \<or> i < Suc ix \<or> (i = Suc ix \<and> j < 1)" for i j
  proof -
    from c j have "i = 0 \<or> j = 0 \<or> i < ix \<or> (i = ix \<and> j < ny + 1)" by auto
    from filled_uptoD(3) [OF assms i j this] show ?thesis .
  qed
qed

lemma filled_upto_done:
  assumes "filled_upto nx ny f (Suc nx) 1 A" and "i \<le> nx" and "j \<le> ny"
  shows "A ! i ! j = f i j"
  using filled_uptoD(3) [OF assms] assms(2) by simp

subsection \<open>The table of dynprog\<close>

lemma dynprog_cell_step:
  assumes ix: "1 \<le> ix" "ix \<le> length x" and iy: "1 \<le> iy" "iy \<le> length y"
    and invM: "filled_upto (length x) (length y) (dist_rec x y ic dc mc) ix iy (fst MP)"
    and invP: "filled_upto (length x) (length y) (op_rec x y ic dc mc) ix iy (snd MP)"
  shows "filled_upto (length x) (length y) (dist_rec x y ic dc mc) ix (Suc iy)
           (fst (dynprog_cell x y ic dc mc ix iy MP))"
    and "filled_upto (length x) (length y) (op_rec x y ic dc mc) ix (Suc iy)
           (snd (dynprog_cell x y ic dc mc ix iy MP))"
proof -
  obtain i' where i': "ix = Suc i'" using ix by (cases ix) auto
  obtain j' where j': "iy = Suc j'" using iy by (cases iy) auto
  let ?D = "dist_rec x y ic dc mc"
  let ?M = "fst MP"
  have c1: "?M ! i' ! j' = ?D i' j'"
    using filled_uptoD(3) [OF invM, of i' j'] ix iy i' j' by simp
  have c2: "?M ! ix ! j' = ?D ix j'"
    using filled_uptoD(3) [OF invM, of ix j'] ix iy i' j' by simp
  have c3: "?M ! i' ! iy = ?D i' iy"
    using filled_uptoD(3) [OF invM, of i' iy] ix iy i' j' by simp
  let ?L = "[?D i' j' + mc (x ! i') (y ! j'), ?D ix j' + ic (y ! j'), ?D i' iy + dc (x ! i')]"
  have cell: "dynprog_cell x y ic dc mc ix iy MP =
      (setitem ?M ix iy (?L ! argmin ?L), setitem (snd MP) ix iy (int (argmin ?L)))"
    using c1 c2 c3 by (simp add: dynprog_cell_def Let_def i' j')
  have vM: "?L ! argmin ?L = ?D ix iy"
    unfolding argmin3_value by (simp add: i' j')
  have vP: "int (argmin ?L) = op_rec x y ic dc mc ix iy"
    by (simp add: op_rec_def i' j')
  show "filled_upto (length x) (length y) ?D ix (Suc iy)
           (fst (dynprog_cell x y ic dc mc ix iy MP))"
    unfolding cell fst_conv by (rule filled_upto_setitem [OF ix iy invM vM])
  show "filled_upto (length x) (length y) (op_rec x y ic dc mc) ix (Suc iy)
           (snd (dynprog_cell x y ic dc mc ix iy MP))"
    unfolding cell snd_conv by (rule filled_upto_setitem [OF ix iy invP vP])
qed

lemma dynprog_row_step:
  assumes ix: "1 \<le> ix" "ix \<le> length x"
    and inv: "dynprog_inv x y ic dc mc ix 1 MP"
  shows "dynprog_inv x y ic dc mc (Suc ix) 1
           (fold (dynprog_cell x y ic dc mc ix) [1..<length y + 1] MP)"
proof -
  have "dynprog_inv x y ic dc mc ix (length y + 1)
          (fold (dynprog_cell x y ic dc mc ix) [1..<length y + 1] MP)"
  proof (rule fold_upt_invariant [where I = "dynprog_inv x y ic dc mc ix"])
    show "1 \<le> length y + 1" by simp
    show "dynprog_inv x y ic dc mc ix 1 MP" by (rule inv)
    fix k t
    assume "1 \<le> k" "k < length y + 1" "dynprog_inv x y ic dc mc ix k t"
    then show "dynprog_inv x y ic dc mc ix (Suc k) (dynprog_cell x y ic dc mc ix k t)"
      using dynprog_cell_step [OF ix, of k y ic dc mc t] by (simp add: dynprog_inv_def)
  qed
  then show ?thesis
    unfolding dynprog_inv_def by (blast intro: filled_upto_next_row)
qed

lemma cumsum_from_length [simp]: "length (cumsum_from a vs) = length vs"
  by (induction vs arbitrary: a) simp_all

lemma cumsum_from_nth:
  "i < length vs \<Longrightarrow> cumsum_from a vs ! i = a + sum_list (take (Suc i) vs)"
proof (induction vs arbitrary: a i)
  case Nil
  then show ?case by simp
next
  case (Cons v vs)
  show ?case
  proof (cases i)
    case 0
    then show ?thesis by simp
  next
    case (Suc k)
    with Cons.prems have "k < length vs" by simp
    from Cons.IH [OF this, of "a + v"] Suc show ?thesis by simp
  qed
qed

lemma cumsum_length [simp]: "length (cumsum vs) = length vs"
  by (simp add: cumsum_def)

lemma cumsum_nth: "i < length vs \<Longrightarrow> cumsum vs ! i = sum_list (take (Suc i) vs)"
  by (simp add: cumsum_def cumsum_from_nth)

lemma dist_rec_col0:
  "i \<le> length x \<Longrightarrow> dist_rec x y ic dc mc i 0 = sum_list (map dc (take i x))"
  by (induction i) (simp_all add: take_Suc_conv_app_nth)

lemma dist_rec_row0:
  "j \<le> length y \<Longrightarrow> dist_rec x y ic dc mc 0 j = sum_list (map ic (take j y))"
  by (induction j) (simp_all add: take_Suc_conv_app_nth)

lemma init_M:
  "set_row0_tail (set_col0_tail (zeros (n + 1) (m + 1)) ds) is =
     (0 # is) # map (\<lambda>(row, v). row[0 := v]) (zip (replicate n (replicate (Suc m) 0)) ds)"
  by (simp add: set_row0_tail_def set_col0_tail_def zeros_def)

lemma init_P:
  "fill_row0_tail (fill_col0_tail (zeros (n + 1) (m + 1)) c) d =
     (0 # replicate m d) # replicate n (c # replicate m 0)"
  by (simp add: fill_row0_tail_def fill_col0_tail_def zeros_def)

lemma dynprog_init_M:
  "filled_upto (length x) (length y) (dist_rec x y ic dc mc) 1 1
     (set_row0_tail (set_col0_tail (zeros (length x + 1) (length y + 1))
         (cumsum (map dc x))) (cumsum (map ic y)))"
  unfolding init_M
proof (rule filled_uptoI)
  let ?M = "(0 # cumsum (map ic y)) #
        map (\<lambda>(row, v). row[0 := v])
          (zip (replicate (length x) (replicate (Suc (length y)) 0)) (cumsum (map dc x)))"
  show "length ?M = length x + 1" by simp
  show "length (?M ! i) = length y + 1" if "i \<le> length x" for i
    using that by (cases i) simp_all
  show "?M ! i ! j = dist_rec x y ic dc mc i j"
    if i: "i \<le> length x" and j: "j \<le> length y"
      and f: "i = 0 \<or> j = 0 \<or> i < 1 \<or> i = 1 \<and> j < 1" for i j
  proof (cases i)
    case 0
    show ?thesis
    proof (cases j)
      case 0
      with \<open>i = 0\<close> show ?thesis by simp
    next
      case (Suc j')
      with j have "j' < length y" by simp
      with \<open>i = 0\<close> Suc j show ?thesis
        by (simp add: cumsum_nth dist_rec_row0 take_map del: dist_rec.simps)
    qed
  next
    case (Suc i')
    with f have j0: "j = 0" by auto
    from Suc i have "i' < length x" by simp
    with Suc j0 i show ?thesis
      by (simp add: cumsum_nth dist_rec_col0 take_map del: dist_rec.simps)
  qed
qed

lemma dynprog_init_P:
  "filled_upto (length x) (length y) (op_rec x y ic dc mc) 1 1
     (fill_row0_tail (fill_col0_tail (zeros (length x + 1) (length y + 1)) op_delete)
         op_insert)"
  unfolding init_P
proof (rule filled_uptoI)
  let ?P = "(0 # replicate (length y) op_insert) #
        replicate (length x) (op_delete # replicate (length y) 0)"
  show "length ?P = length x + 1" by simp
  show "length (?P ! i) = length y + 1" if "i \<le> length x" for i
    using that by (cases i) simp_all
  show "?P ! i ! j = op_rec x y ic dc mc i j"
    if i: "i \<le> length x" and j: "j \<le> length y"
      and f: "i = 0 \<or> j = 0 \<or> i < 1 \<or> i = 1 \<and> j < 1" for i j
  proof (cases i)
    case 0
    with j show ?thesis by (cases j) (simp_all add: op_rec_def op_insert_def)
  next
    case (Suc i')
    with f have j0: "j = 0" by auto
    from Suc i have "i' < length x" by simp
    with Suc j0 show ?thesis by (simp add: op_rec_def op_delete_def)
  qed
qed

lemma dynprog_table:
  "dynprog_inv x y ic dc mc (Suc (length x)) 1 (dynprog x y ic dc mc)"
proof -
  let ?init = "(set_row0_tail (set_col0_tail (zeros (length x + 1) (length y + 1))
         (cumsum (map dc x))) (cumsum (map ic y)),
      fill_row0_tail (fill_col0_tail (zeros (length x + 1) (length y + 1)) op_delete)
         op_insert)"
  have "dynprog_inv x y ic dc mc (length x + 1) 1
          (fold (\<lambda>ix. fold (dynprog_cell x y ic dc mc ix) [1..<length y + 1])
             [1..<length x + 1] ?init)"
  proof (rule fold_upt_invariant [where I = "\<lambda>ix. dynprog_inv x y ic dc mc ix 1"])
    show "1 \<le> length x + 1" by simp
    show "dynprog_inv x y ic dc mc 1 1 ?init"
      unfolding dynprog_inv_def fst_conv snd_conv
      using dynprog_init_M dynprog_init_P by blast
    fix k t
    assume "1 \<le> k" "k < length x + 1" "dynprog_inv x y ic dc mc k 1 t"
    then show "dynprog_inv x y ic dc mc (Suc k) 1
        (fold (dynprog_cell x y ic dc mc k) [1..<length y + 1] t)"
      using dynprog_row_step [of k x y ic dc mc t] by simp
  qed
  then show ?thesis by (simp add: dynprog_def Let_def)
qed

lemma dynprog_M:
  assumes "i \<le> length x" and "j \<le> length y"
  shows "fst (dynprog x y ic dc mc) ! i ! j = dist_rec x y ic dc mc i j"
  using dynprog_table [of x y ic dc mc] assms
  unfolding dynprog_inv_def by (blast intro: filled_upto_done)















subsection \<open>The table of levenshtein\<close>

lemma unit_col0: "dist_rec x y (\<lambda>c. 1) (\<lambda>c. 1) mc i 0 = real i"
  by (induction i) simp_all

lemma unit_row0: "dist_rec x y (\<lambda>c. 1) (\<lambda>c. 1) mc 0 j = real j"
  by (induction j) simp_all

lemma zeros_shape:
  "length (zeros r c) = r" "i < r \<Longrightarrow> length (zeros r c ! i) = c"
  by (simp_all add: zeros_def)

lemma levenshtein_first_column:
  fixes nx ny :: nat
  defines "m1 \<equiv> fold (\<lambda>x matrix. setitem matrix x 0 (real x)) [0..<nx + 1]
                   (zeros (nx + 1) (ny + 1))"
  shows "length m1 = nx + 1 \<and> (\<forall>i \<le> nx. length (m1 ! i) = ny + 1) \<and>
         (\<forall>i \<le> nx. m1 ! i ! 0 = real i)"
proof -
  let ?I = "\<lambda>k (m :: real ndarray). length m = nx + 1 \<and> (\<forall>i \<le> nx. length (m ! i) = ny + 1) \<and>
               (\<forall>i < k. m ! i ! 0 = real i)"
  have "?I (nx + 1) m1"
    unfolding m1_def
  proof (rule fold_upt_invariant [where I = ?I])
    show "0 \<le> nx + 1" by simp
    show "?I 0 (zeros (nx + 1) (ny + 1))" by (simp add: zeros_shape)
    fix k and t :: "real ndarray"
    assume k: "0 \<le> k" "k < nx + 1" and t: "?I k t"
    then have inA: "k < length t" "0 < length (t ! k)" by simp_all
    have "setitem t k 0 (real k) ! i ! 0 = real i" if "i < Suc k" for i
      using that t inA by (auto simp: setitem_nth less_Suc_eq)
    with t show "?I (Suc k) (setitem t k 0 (real k))" by simp
  qed
  then show ?thesis by (simp add: less_Suc_eq_le)
qed

lemma levenshtein_borders:
  fixes nx ny :: nat
  defines "m1 \<equiv> fold (\<lambda>x matrix. setitem matrix x 0 (real x)) [0..<nx + 1]
                   (zeros (nx + 1) (ny + 1))"
  defines "m2 \<equiv> fold (\<lambda>y matrix. setitem matrix 0 y (real y)) [0..<ny + 1] m1"
  shows "length m2 = nx + 1 \<and> (\<forall>i \<le> nx. length (m2 ! i) = ny + 1) \<and>
         (\<forall>i \<le> nx. m2 ! i ! 0 = real i) \<and> (\<forall>j \<le> ny. m2 ! 0 ! j = real j)"
proof -
  let ?J = "\<lambda>k (m :: real ndarray). length m = nx + 1 \<and> (\<forall>i \<le> nx. length (m ! i) = ny + 1) \<and>
               (\<forall>i \<le> nx. m ! i ! 0 = real i) \<and> (\<forall>j < k. m ! 0 ! j = real j)"
  have "?J (ny + 1) m2"
    unfolding m2_def
  proof (rule fold_upt_invariant [where I = ?J])
    show "0 \<le> ny + 1" by simp
    show "?J 0 m1"
      using levenshtein_first_column [of nx ny] unfolding m1_def by simp
    fix k and t :: "real ndarray"
    assume k: "0 \<le> k" "k < ny + 1" and t: "?J k t"
    then have inA: "0 < length t" "k < length (t ! 0)" by simp_all
    have a: "setitem t 0 k (real k) ! i ! 0 = real i" if "i \<le> nx" for i
      using that t inA by (auto simp: setitem_nth)
    have b: "setitem t 0 k (real k) ! 0 ! j = real j" if "j < Suc k" for j
      using that t inA by (auto simp: setitem_nth less_Suc_eq)
    from t a b show "?J (Suc k) (setitem t 0 k (real k))" by simp
  qed
  then show ?thesis by (simp add: less_Suc_eq_le)
qed

lemma borders_filled:
  assumes b: "length m = length x + 1 \<and> (\<forall>i \<le> length x. length (m ! i) = length y + 1) \<and>
         (\<forall>i \<le> length x. m ! i ! 0 = real i) \<and> (\<forall>j \<le> length y. m ! 0 ! j = real j)"
  shows "filled_upto (length x) (length y)
     (dist_rec x y (\<lambda>c. 1) (\<lambda>c. 1) (\<lambda>a b. if a = b then 0 else 1)) 1 1 m"
proof (rule filled_uptoI)
  show "length m = length x + 1" using b by blast
  show "length (m ! i) = length y + 1" if "i \<le> length x" for i using b that by blast
  show "m ! i ! j = dist_rec x y (\<lambda>c. 1) (\<lambda>c. 1) (\<lambda>a b. if a = b then 0 else 1) i j"
    if i: "i \<le> length x" and j: "j \<le> length y"
      and f: "i = 0 \<or> j = 0 \<or> i < 1 \<or> i = 1 \<and> j < 1" for i j
  proof -
    from f have "i = 0 \<or> j = 0" by auto
    then show ?thesis
    proof
      assume "i = 0"
      moreover from b j have "m ! 0 ! j = real j" by blast
      ultimately show ?thesis by (simp add: unit_row0)
    next
      assume "j = 0"
      moreover from b i have "m ! i ! 0 = real i" by blast
      ultimately show ?thesis by (simp add: unit_col0)
    qed
  qed
qed

lemma levenshtein_init:
  "filled_upto (length x) (length y)
     (dist_rec x y (\<lambda>c. 1) (\<lambda>c. 1) (\<lambda>a b. if a = b then 0 else 1)) 1 1
     (fold (\<lambda>y matrix. setitem matrix 0 y (real y)) [0..<length y + 1]
        (fold (\<lambda>x matrix. setitem matrix x 0 (real x)) [0..<length x + 1]
           (zeros (length x + 1) (length y + 1))))"
  by (rule borders_filled) (rule levenshtein_borders)

lemma levenshtein_cell_step:
  assumes ix: "1 \<le> ix" "ix \<le> length x" and iy: "1 \<le> iy" "iy \<le> length y"
    and inv: "filled_upto (length x) (length y)
                (dist_rec x y (\<lambda>c. 1) (\<lambda>c. 1) (\<lambda>a b. if a = b then 0 else 1)) ix iy m"
  shows "filled_upto (length x) (length y)
           (dist_rec x y (\<lambda>c. 1) (\<lambda>c. 1) (\<lambda>a b. if a = b then 0 else 1)) ix (Suc iy)
           (levenshtein_cell x y ix iy m)"
proof -
  obtain i' where i': "ix = Suc i'" using ix by (cases ix) auto
  obtain j' where j': "iy = Suc j'" using iy by (cases iy) auto
  let ?D = "dist_rec x y (\<lambda>c. 1) (\<lambda>c. 1) (\<lambda>a b. if a = b then 0 else 1)"
  have c1: "m ! i' ! j' = ?D i' j'"
    using filled_uptoD(3) [OF inv, of i' j'] ix iy i' j' by simp
  have c2: "m ! ix ! j' = ?D ix j'"
    using filled_uptoD(3) [OF inv, of ix j'] ix iy i' j' by simp
  have c3: "m ! i' ! iy = ?D i' iy"
    using filled_uptoD(3) [OF inv, of i' iy] ix iy i' j' by simp
  have sw: "min c (min a b) = min a (min b c)" for a b c :: real
    by (simp add: min_def)
  have D: "?D ix iy =
      min (?D i' j' + (if x ! i' = y ! j' then 0 else 1))
        (min (?D ix j' + 1) (?D i' iy + 1))"
    unfolding i' j' by simp
  have cell: "levenshtein_cell x y ix iy m = setitem m ix iy (?D ix iy)"
  proof (cases "x ! i' = y ! j'")
    case True
    have "levenshtein_cell x y ix iy m =
        setitem m ix iy (min (?D i' iy + 1) (min (?D i' j') (?D ix j' + 1)))"
      using True c1 c2 c3 by (simp add: levenshtein_cell_def i' j' del: dist_rec.simps)
    also have "min (?D i' iy + 1) (min (?D i' j') (?D ix j' + 1)) = ?D ix iy"
      unfolding D using True by (simp add: sw del: dist_rec.simps)
    finally show ?thesis .
  next
    case False
    have "levenshtein_cell x y ix iy m =
        setitem m ix iy (min (?D i' iy + 1) (min (?D i' j' + 1) (?D ix j' + 1)))"
      using False c1 c2 c3 by (simp add: levenshtein_cell_def i' j' del: dist_rec.simps)
    also have "min (?D i' iy + 1) (min (?D i' j' + 1) (?D ix j' + 1)) = ?D ix iy"
      unfolding D using False by (simp add: sw del: dist_rec.simps)
    finally show ?thesis .
  qed
  show ?thesis
    unfolding cell by (rule filled_upto_setitem [OF ix iy inv refl])
qed

lemma levenshtein_row_step:
  assumes ix: "1 \<le> ix" "ix \<le> length x"
    and inv: "filled_upto (length x) (length y)
                (dist_rec x y (\<lambda>c. 1) (\<lambda>c. 1) (\<lambda>a b. if a = b then 0 else 1)) ix 1 m"
  shows "filled_upto (length x) (length y)
           (dist_rec x y (\<lambda>c. 1) (\<lambda>c. 1) (\<lambda>a b. if a = b then 0 else 1)) (Suc ix) 1
           (fold (levenshtein_cell x y ix) [1..<length y + 1] m)"
proof -
  let ?D = "dist_rec x y (\<lambda>c. 1) (\<lambda>c. 1) (\<lambda>a b. if a = b then 0 else 1)"
  have "filled_upto (length x) (length y) ?D ix (length y + 1)
          (fold (levenshtein_cell x y ix) [1..<length y + 1] m)"
  proof (rule fold_upt_invariant [where I = "filled_upto (length x) (length y) ?D ix"])
    show "1 \<le> length y + 1" by simp
    show "filled_upto (length x) (length y) ?D ix 1 m" by (rule inv)
    fix k t
    assume "1 \<le> k" "k < length y + 1" "filled_upto (length x) (length y) ?D ix k t"
    then show "filled_upto (length x) (length y) ?D ix (Suc k) (levenshtein_cell x y ix k t)"
      using levenshtein_cell_step [OF ix, of k y t] by simp
  qed
  then show ?thesis by (rule filled_upto_next_row)
qed

lemma levenshtein_value:
  "levenshtein x y =
     dist_rec x y (\<lambda>c. 1) (\<lambda>c. 1) (\<lambda>a b. if a = b then 0 else 1) (length x) (length y)"
proof -
  let ?D = "dist_rec x y (\<lambda>c. 1) (\<lambda>c. 1) (\<lambda>a b. if a = b then 0 else 1)"
  let ?init = "fold (\<lambda>y matrix. setitem matrix 0 y (real y)) [0..<length y + 1]
        (fold (\<lambda>x matrix. setitem matrix x 0 (real x)) [0..<length x + 1]
           (zeros (length x + 1) (length y + 1)))"
  let ?m = "fold (\<lambda>ix. fold (levenshtein_cell x y ix) [1..<length y + 1])
              [1..<length x + 1] ?init"
  have "filled_upto (length x) (length y) ?D (length x + 1) 1 ?m"
  proof (rule fold_upt_invariant [where I = "\<lambda>ix. filled_upto (length x) (length y) ?D ix 1"])
    show "1 \<le> length x + 1" by simp
    show "filled_upto (length x) (length y) ?D 1 1 ?init" by (rule levenshtein_init)
    fix k t
    assume "1 \<le> k" "k < length x + 1" "filled_upto (length x) (length y) ?D k 1 t"
    then show "filled_upto (length x) (length y) ?D (Suc k) 1
        (fold (levenshtein_cell x y k) [1..<length y + 1] t)"
      using levenshtein_row_step [of k x y t] by simp
  qed
  then have "?m ! length x ! length y = ?D (length x) (length y)"
    using filled_upto_done [of "length x" "length y" ?D ?m "length x" "length y"] by simp
  then show ?thesis by (simp add: levenshtein_def Let_def)
qed

text \<open>
  Claim C10. \<open>levenshtein\<close> returns the last cell of the cost table that \<open>dynprog\<close>
  builds under the unit cost model: insert 1, delete 1, match 0 for equal elements and
  1 otherwise.
\<close>

theorem levenshtein_is_unit_dynprog:
  "levenshtein seq1 seq2 =
     fst (dynprog seq1 seq2 (\<lambda>c. 1) (\<lambda>c. 1) (\<lambda>cx cy. if cx = cy then 0 else 1))
       ! length seq1 ! length seq2"
  by (simp add: levenshtein_value dynprog_M del: dist_rec.simps)

subsection \<open>The loops of explain_dynprog\<close>

declare walk_loop.simps [simp del] delete_loop.simps [simp del] insert_loop.simps [simp del]

lemma walk_loop_stop: "ix = 0 \<or> iy = 0 \<Longrightarrow> walk_loop x y P ix iy L = Inr (ix, iy, L)"
  by (subst walk_loop.simps) auto

lemma walk_loop_step:
  assumes "0 < ix" "0 < iy" "ix \<le> length x" "iy \<le> length y"
    and "ix < length P" "iy < length (P ! ix)"
  shows "walk_loop x y P ix iy L =
     (if P ! ix ! iy = 0 then
        walk_loop x y P (ix - 1) (iy - 1) (L @ [Match (x ! (ix - 1)) (y ! (iy - 1))])
      else if P ! ix ! iy = 1 then walk_loop x y P ix (iy - 1) (L @ [Insert (y ! (iy - 1))])
      else walk_loop x y P (ix - 1) iy (L @ [Delete (x ! (ix - 1))]))"
proof -
  from assms have "ix - 1 < length x" "iy - 1 < length y" by simp_all
  with assms show ?thesis
    by (subst walk_loop.simps) (simp add: getitem_def seq_item_def)
qed

lemma walk_loop_out_of_range:
  assumes "0 < ix" "0 < iy" "\<not> (ix < length P \<and> iy < length (P ! ix))"
  shows "walk_loop x y P ix iy L = Inl IndexError"
  using assms by (subst walk_loop.simps) (auto simp: getitem_def)

lemma delete_loop_eq:
  "ix \<le> length x \<Longrightarrow> delete_loop x ix L = Inr (L @ map Delete (rev (take ix x)))"
proof (induction ix arbitrary: L)
  case 0
  show ?case by (subst delete_loop.simps) simp
next
  case (Suc k)
  then have k: "k < length x" by simp
  have "delete_loop x (Suc k) L = delete_loop x k (L @ [Delete (x ! k)])"
    using k by (subst delete_loop.simps) (simp add: seq_item_def)
  also have "\<dots> = Inr ((L @ [Delete (x ! k)]) @ map Delete (rev (take k x)))"
    using Suc.IH [of "L @ [Delete (x ! k)]"] k by simp
  finally show ?case using k by (simp add: take_Suc_conv_app_nth)
qed

lemma insert_loop_eq:
  "iy \<le> length y \<Longrightarrow> insert_loop y iy L = Inr (L @ map Insert (rev (take iy y)))"
proof (induction iy arbitrary: L)
  case 0
  show ?case by (subst insert_loop.simps) simp
next
  case (Suc k)
  then have k: "k < length y" by simp
  have "insert_loop y (Suc k) L = insert_loop y k (L @ [Insert (y ! k)])"
    using k by (subst insert_loop.simps) (simp add: seq_item_def)
  also have "\<dots> = Inr ((L @ [Insert (y ! k)]) @ map Insert (rev (take k y)))"
    using Suc.IH [of "L @ [Insert (y ! k)]"] k by simp
  finally show ?case using k by (simp add: take_Suc_conv_app_nth)
qed

text \<open>
  With every cell of the walk inside \<open>P\<close>, the first loop ends on a border, and what it
  has appended turns the rest of the source into the rest of the target.
\<close>

lemma walk_loop_replay:
  assumes P: "length x < length P" "\<And>i. i \<le> length x \<Longrightarrow> length y < length (P ! i)"
  shows "ix \<le> length x \<Longrightarrow> iy \<le> length y \<Longrightarrow>
     replay (rev L) (drop ix x) = Some (drop iy y) \<Longrightarrow>
     \<exists>ix' iy' L'. walk_loop x y P ix iy L = Inr (ix', iy', L') \<and> (ix' = 0 \<or> iy' = 0) \<and>
        ix' \<le> length x \<and> iy' \<le> length y \<and>
        replay (rev L') (drop ix' x) = Some (drop iy' y)"
proof (induction "ix + iy" arbitrary: ix iy L rule: less_induct)
  case less
  show ?case
  proof (cases "ix = 0 \<or> iy = 0")
    case True
    with less.prems show ?thesis by (auto simp: walk_loop_stop)
  next
    case False
    then have pos: "0 < ix" "0 < iy" by simp_all
    obtain i where i: "ix = Suc i" using pos by (cases ix) auto
    obtain j where j: "iy = Suc j" using pos by (cases iy) auto
    from less.prems i j have lt: "i < length x" "j < length y" by simp_all
    have dx: "drop i x = x ! i # drop ix x" using lt i by (simp add: Cons_nth_drop_Suc)
    have dy: "drop j y = y ! j # drop iy y" using lt j by (simp add: Cons_nth_drop_Suc)
    have inP: "ix < length P" "iy < length (P ! ix)"
      using P(1) P(2) [of ix] less.prems by simp_all
    note step = walk_loop_step [OF pos less.prems(1,2) inP, of L]
    consider (m) "P ! ix ! iy = 0" | (ins) "P ! ix ! iy \<noteq> 0" "P ! ix ! iy = 1"
      | (del) "P ! ix ! iy \<noteq> 0" "P ! ix ! iy \<noteq> 1" by blast
    then show ?thesis
    proof cases
      case m
      have "replay (rev (L @ [Match (x ! i) (y ! j)])) (drop i x) = Some (drop j y)"
        using less.prems(3) by (simp add: dx dy)
      from less.hyps [of i j "L @ [Match (x ! i) (y ! j)]", OF _ _ _ this] lt i j
      show ?thesis unfolding step using m by (simp add: i j)
    next
      case ins
      have "replay (rev (L @ [Insert (y ! j)])) (drop ix x) = Some (drop j y)"
        using less.prems(3) by (simp add: dy)
      from less.hyps [of ix j "L @ [Insert (y ! j)]", OF _ _ _ this] lt i j less.prems(1)
      show ?thesis unfolding step using ins by (simp add: j)
    next
      case del
      have "replay (rev (L @ [Delete (x ! i)])) (drop i x) = Some (drop iy y)"
        using less.prems(3) by (simp add: dx)
      from less.hyps [of i iy "L @ [Delete (x ! i)]", OF _ _ _ this] lt i j less.prems(2)
      show ?thesis unfolding step using del by (simp add: i)
    qed
  qed
qed

lemma replay_inserts: "replay (map Insert ys @ ops) src = map_option ((@) ys) (replay ops src)"
  by (induction ys) (simp_all add: option.map_comp comp_def option.map_ident)

lemma replay_deletes: "replay (map Delete xs @ ops) (xs @ src) = replay ops src"
  by (induction xs) simp_all

lemma explain_dynprog_eq:
  assumes "walk_loop x y P (length x) (length y) [] = Inr (ix, iy, L)"
    and "ix \<le> length x" "iy \<le> length y"
  shows "explain_dynprog x y M P =
     Inr (map Insert (take iy y) @ map Delete (take ix x) @ rev L)"
  using assms by (simp add: explain_dynprog_def delete_loop_eq insert_loop_eq rev_map)

lemma explain_dynprog_replay:
  assumes P: "length x < length P" "\<And>i. i \<le> length x \<Longrightarrow> length y < length (P ! i)"
  shows "\<exists>ops. explain_dynprog x y M P = Inr ops \<and> replay ops x = Some y"
proof -
  have "replay (rev []) (drop (length x) x) = Some (drop (length y) y)" by simp
  from walk_loop_replay [OF P _ _ this]
  obtain ix iy L where w: "walk_loop x y P (length x) (length y) [] = Inr (ix, iy, L)"
    and le: "ix \<le> length x" "iy \<le> length y"
    and r: "replay (rev L) (drop ix x) = Some (drop iy y)" by auto
  have "replay (map Insert (take iy y) @ map Delete (take ix x) @ rev L) x =
      map_option ((@) (take iy y))
        (replay (map Delete (take ix x) @ rev L) (take ix x @ drop ix x))"
    by (simp add: replay_inserts)
  also have "\<dots> = Some y"
    unfolding replay_deletes r by simp
  finally show ?thesis
    using explain_dynprog_eq [OF w le, of M] by simp
qed

lemma replay_copy_equal_matches:
  "only_equal_matches ops \<Longrightarrow> replay_copy ops src = replay ops src"
proof (induction ops arbitrary: src)
  case Nil
  show ?case by simp
next
  case (Cons op ops)
  then show ?case by (cases op) (auto split: list.splits)
qed

lemma script_cost_append [simp]:
  "script_cost ic dc mc (xs @ ys) = script_cost ic dc mc xs + script_cost ic dc mc ys"
  by (simp add: script_cost_def)

lemma script_cost_rev [simp]: "script_cost ic dc mc (rev xs) = script_cost ic dc mc xs"
  by (simp add: script_cost_def rev_map [symmetric])

lemma script_cost_single [simp]: "script_cost ic dc mc [e] = op_cost ic dc mc e"
  by (simp add: script_cost_def)





lemma dynprog_P_in_range:
  "length x < length (snd (dynprog x y ic dc mc))"
  "i \<le> length x \<Longrightarrow> length y < length (snd (dynprog x y ic dc mc) ! i)"
proof -
  have inv: "filled_upto (length x) (length y) (op_rec x y ic dc mc) (Suc (length x)) 1
      (snd (dynprog x y ic dc mc))"
    using dynprog_table [of x y ic dc mc] unfolding dynprog_inv_def by blast
  show "length x < length (snd (dynprog x y ic dc mc))"
    using filled_uptoD(1) [OF inv] by simp
  show "length y < length (snd (dynprog x y ic dc mc) ! i)" if "i \<le> length x"
    using filled_uptoD(2) [OF inv that] by simp
qed


text \<open>
  Claim C4, as amended. Applying the script that \<open>explain_dynprog\<close> returns on the
  tables of \<open>dynprog\<close> to \<open>x\<close>, a match writing the target element it pairs the source
  element with, gives \<open>y\<close>; copying the source element on a match gives \<open>y\<close> whenever
  every match of the script pairs two equal elements.
\<close>

theorem explain_dynprog_replay_target:
  "\<exists>ops. explain_dynprog x y (fst (dynprog x y ic dc mc)) (snd (dynprog x y ic dc mc)) = Inr ops \<and>
     replay ops x = Some y \<and>
     (only_equal_matches ops \<longrightarrow> replay_copy ops x = Some y)"
proof -
  note inP = dynprog_P_in_range [where x = x and y = y and ic = ic and dc = dc and mc = mc]
  from explain_dynprog_replay [OF inP, where M = "fst (dynprog x y ic dc mc)"]
  obtain ops where
    "explain_dynprog x y (fst (dynprog x y ic dc mc)) (snd (dynprog x y ic dc mc)) = Inr ops"
    and "replay ops x = Some y" by auto
  then show ?thesis by (auto simp: replay_copy_equal_matches)
qed

theorem explain_dynprog_replay_target_witness:
  "explain_dynprog ''ab'' ''b''
     (fst (dynprog ''ab'' ''b'' default_insert_cost default_delete_cost default_match_cost))
     (snd (dynprog ''ab'' ''b'' default_insert_cost default_delete_cost default_match_cost))
     = Inr [Delete CHR ''a'', Match CHR ''b'' CHR ''b''] \<and>
   only_equal_matches [Delete CHR ''a'', Match CHR ''b'' CHR ''b''] \<and>
   replay_copy [Delete CHR ''a'', Match CHR ''b'' CHR ''b''] ''ab'' = Some ''b''"
proof -
  have e: "explain_dynprog ''ab'' ''b''
     (fst (dynprog ''ab'' ''b'' default_insert_cost default_delete_cost default_match_cost))
     (snd (dynprog ''ab'' ''b'' default_insert_cost default_delete_cost default_match_cost))
     = Inr [Delete CHR ''a'', Match CHR ''b'' CHR ''b'']"
    by code_simp
  show ?thesis
    using explain_dynprog_replay_target [of "''ab''" "''b''" default_insert_cost
        default_delete_cost default_match_cost]
    unfolding e by simp
qed

text \<open>
  The claim as stated fails under the unit cost model for \<open>x = ''a''\<close> and \<open>y = ''b''\<close>:
  the script is the single match of \<open>a\<close> with \<open>b\<close>, and copying the source element
  gives \<open>''a''\<close>.
\<close>

theorem explain_dynprog_copy_counterexample:
  "explain_dynprog ''a'' ''b''
     (fst (dynprog ''a'' ''b'' (\<lambda>c. 1) (\<lambda>c. 1) (\<lambda>cx cy. if cx = cy then 0 else 1)))
     (snd (dynprog ''a'' ''b'' (\<lambda>c. 1) (\<lambda>c. 1) (\<lambda>cx cy. if cx = cy then 0 else 1)))
     = Inr [Match CHR ''a'' CHR ''b''] \<and>
   replay_copy [Match CHR ''a'' CHR ''b''] ''a'' = Some ''a'' \<and>
   replay_copy [Match CHR ''a'' CHR ''b''] ''a'' \<noteq> Some ''b''"
  by code_simp

text \<open>
  Claim C7, as amended. \<open>explain_dynprog\<close> compares no shapes; it only reads the cells of
  \<open>P\<close> that its walk visits. When either sequence is empty it reads none and returns
  the inserts of \<open>y\<close> followed by the deletes of \<open>x\<close>, whatever \<open>P\<close> is. When \<open>P\<close> has
  more than \<open>length x\<close> rows of more than \<open>length y\<close> cells it returns a script. When
  both sequences are non-empty and cell \<open>(length x, length y)\<close> lies outside \<open>P\<close>, the
  first read inside the loop raises IndexError.
\<close>

theorem explain_dynprog_no_shape_check:
  "(x = [] \<or> y = [] \<longrightarrow> explain_dynprog x y M P = Inr (map Insert y @ map Delete x)) \<and>
   (length x < length P \<and> (\<forall>i \<le> length x. length y < length (P ! i)) \<longrightarrow>
      (\<exists>ops. explain_dynprog x y M P = Inr ops)) \<and>
   (x \<noteq> [] \<and> y \<noteq> [] \<and> \<not> (length x < length P \<and> length y < length (P ! length x)) \<longrightarrow>
      explain_dynprog x y M P = Inl IndexError)"
proof (intro conjI impI)
  assume "x = [] \<or> y = []"
  then have "walk_loop x y P (length x) (length y) [] = Inr (length x, length y, [])"
    by (intro walk_loop_stop) auto
  from explain_dynprog_eq [OF this, of M]
  show "explain_dynprog x y M P = Inr (map Insert y @ map Delete x)" by simp
next
  assume "length x < length P \<and> (\<forall>i \<le> length x. length y < length (P ! i))"
  then have "length x < length P" "\<And>i. i \<le> length x \<Longrightarrow> length y < length (P ! i)" by blast+
  from explain_dynprog_replay [OF this, where M = M]
  show "\<exists>ops. explain_dynprog x y M P = Inr ops" by blast
next
  assume "x \<noteq> [] \<and> y \<noteq> [] \<and> \<not> (length x < length P \<and> length y < length (P ! length x))"
  then have "walk_loop x y P (length x) (length y) [] = Inl IndexError"
    by (intro walk_loop_out_of_range) auto
  then show "explain_dynprog x y M P = Inl IndexError"
    by (simp add: explain_dynprog_def)
qed

theorem explain_dynprog_no_shape_check_witness:
  "('''' :: string) = [] \<and>
   explain_dynprog ''a'' '''' [[0]] [[0]] = Inr [Delete CHR ''a''] \<and>
   length ''a'' < length [[0, 0, 0], [0, 0, 0], [0, 0, 0 :: int]] \<and>
   length ''b'' < length ([[0, 0, 0], [0, 0, 0], [0, 0, 0 :: int]] ! 0) \<and>
   length ''b'' < length ([[0, 0, 0], [0, 0, 0], [0, 0, 0 :: int]] ! 1) \<and>
   (\<exists>ops. explain_dynprog ''a'' ''b'' [[0]] [[0, 0, 0], [0, 0, 0], [0, 0, 0]] = Inr ops) \<and>
   ''a'' \<noteq> [] \<and> ''b'' \<noteq> [] \<and> length [[0 :: int]] \<le> length ''a'' \<and>
   explain_dynprog ''a'' ''b'' [[0]] [[0]] = Inl IndexError"
proof -
  have h: "\<forall>i \<le> length ''a''. length ''b'' < length ([[0, 0, 0], [0, 0, 0], [0, 0, 0 :: int]] ! i)"
    by (simp add: le_Suc_eq)
  show ?thesis
    using explain_dynprog_no_shape_check [of "''a''" "''''" "[[0]]" "[[0]]"]
      explain_dynprog_no_shape_check [of "''a''" "''b''" "[[0]]" "[[0, 0, 0], [0, 0, 0], [0, 0, 0]]"]
      explain_dynprog_no_shape_check [of "''a''" "''b''" "[[0]]" "[[0]]"]
      h
    by simp
qed

text \<open>
  The claim as stated fails for \<open>x = ''a''\<close>, \<open>y = ''''\<close> and a trace matrix of one row
  and one cell, where two rows are expected: the script comes back.
\<close>

theorem explain_dynprog_shape_counterexample:
  "length [[0 :: int]] \<noteq> length ''a'' + 1 \<and>
   explain_dynprog ''a'' '''' [[0]] [[0]] = Inr [Delete CHR ''a'']"
  by code_simp

subsection \<open>The recursive function\<close>

lemma lev_source_nonempty:
  "a \<noteq> [] \<Longrightarrow> lev a b ic dc mc = Some (Inr (sum_list (map ic b)))"
  by (subst lev.simps) simp

lemma lev_source_empty:
  "b \<noteq> [] \<Longrightarrow> lev [] b ic dc mc = Some (Inr 0)"
  by (subst lev.simps) simp

lemma lev_returns_nonempty:
  "lev a b ic dc mc = Some r \<Longrightarrow> a \<noteq> [] \<or> b \<noteq> []"
  apply (erule lev.raw_induct [where P = "\<lambda>a b ic dc mc r. a \<noteq> [] \<or> b \<noteq> []", rotated])
  apply (rule ccontr)
  apply (clarsimp simp: bind_eq_Some_conv)
  apply blast
  done

lemma lev_both_empty: "lev [] [] ic dc mc = None"
proof (cases "lev [] [] ic dc mc")
  case None
  then show ?thesis .
next
  case (Some r)
  from lev_returns_nonempty [OF this] show ?thesis by simp
qed

text \<open>
  Claim C8 fails on the code. For \<open>a = ''a''\<close> and \<open>b = ''''\<close> under the default costs,
  \<open>lev\<close> takes its first branch and returns the sum of the insert costs of \<open>b\<close>, which
  is 0, where the last cell of the table of \<open>dynprog\<close> is the delete cost 2; and on two
  empty sequences \<open>lev\<close> calls itself on the same arguments and returns nothing, where
  the table of \<open>dynprog\<close> gives 0.
\<close>

theorem lev_differs_from_dynprog:
  "lev ''a'' '''' default_insert_cost default_delete_cost default_match_cost = Some (Inr 0) \<and>
   fst (dynprog ''a'' '''' default_insert_cost default_delete_cost default_match_cost)
     ! length ''a'' ! length '''' = 2 \<and>
   lev ('''' :: string) '''' default_insert_cost default_delete_cost default_match_cost = None \<and>
   fst (dynprog ('''' :: string) '''' default_insert_cost default_delete_cost default_match_cost)
     ! length '''' ! length '''' = 0"
proof -
  have "fst (dynprog ''a'' '''' default_insert_cost default_delete_cost default_match_cost)
     ! length ''a'' ! length '''' = 2"
    by code_simp
  moreover have "fst (dynprog ('''' :: string) '''' default_insert_cost default_delete_cost
      default_match_cost) ! length '''' ! length '''' = 0"
    by code_simp
  ultimately show ?thesis
    by (simp add: lev_source_nonempty lev_both_empty)
qed

end
